theory Spec2Isabelle
  imports Main "HOL-Library.Word" "HOL-Library.List_Lexorder" "HOL-Library.Sublist"
begin

section \<open>JavaScript values\<close>

text \<open>
  The program is one script, \<^verbatim>\<open>src/index.js\<close>. A JavaScript string is a sequence of
  16-bit code units; the default \<^verbatim>\<open>Array.prototype.sort\<close> compares strings code unit by
  code unit, a proper prefix first, which is the lexicographic order on lists of words.
  \<open>js\<close> writes an ASCII literal as such a string.
\<close>

type_synonym code_unit = "16 word"
type_synonym js_string = "code_unit list"

definition js :: "string \<Rightarrow> js_string" where
  "js s = map (\<lambda>c. of_nat (of_char c)) s"

definition colon :: code_unit where
  "colon = 58"

datatype js_val =
    Undefined
  | Null
  | Bool bool
  | Num int
  | Str js_string
  | Arr "js_val list"
  | Obj "(string \<times> js_val) list"

text \<open>
  What the script throws, catches and receives as a promise rejection is an
  \<^verbatim>\<open>Error\<close> object; the script reads nothing of it but \<^verbatim>\<open>err.message\<close>.
\<close>

datatype js_error = JsError (message: js_string)

fun truthy :: "js_val \<Rightarrow> bool" where
  "truthy Undefined = False"
| "truthy Null = False"
| "truthy (Bool b) = b"
| "truthy (Num n) = (n \<noteq> 0)"
| "truthy (Str s) = (s \<noteq> [])"
| "truthy (Arr _) = True"
| "truthy (Obj _) = True"

text \<open>Reading a property of an object literal, and asking whether it has the property.\<close>

fun get_prop :: "js_val \<Rightarrow> string \<Rightarrow> js_val" where
  "get_prop (Obj kvs) k = (case map_of kvs k of Some v \<Rightarrow> v | None \<Rightarrow> Undefined)"
| "get_prop _ k = Undefined"

fun has_prop :: "js_val \<Rightarrow> string \<Rightarrow> bool" where
  "has_prop (Obj kvs) k = (k \<in> fst ` set kvs)"
| "has_prop _ k = False"

text \<open>\<^verbatim>\<open>options.prefix = v\<close> on an object literal: a new key goes last.\<close>

fun set_prop :: "js_val \<Rightarrow> string \<Rightarrow> js_val \<Rightarrow> js_val" where
  "set_prop (Obj kvs) k v =
     (if k \<in> fst ` set kvs then Obj (map (\<lambda>(k', v'). if k' = k then (k', v) else (k', v')) kvs)
      else Obj (kvs @ [(k, v)]))"
| "set_prop x k v = x"

section \<open>The key-space scanner\<close>

subsection \<open>The regular expression \<^verbatim>\<open>/^.+?:(.+?):.+?$/\<close>\<close>

text \<open>
  Without the \<^verbatim>\<open>s\<close> flag \<^verbatim>\<open>.\<close> matches any code unit but the four line terminators;
  without the \<^verbatim>\<open>m\<close> flag \<^verbatim>\<open>^\<close> and \<^verbatim>\<open>$\<close> match at the two ends of the input only.
\<close>

definition is_line_terminator :: "code_unit \<Rightarrow> bool" where
  "is_line_terminator u = (u = 0x0A \<or> u = 0x0D \<or> u = 0x2028 \<or> u = 0x2029)"

text \<open>
  \<^verbatim>\<open>.+?\<close> followed by the rest of the pattern \<open>k\<close>: the lazy quantifier takes one
  code unit, tries the rest, and takes one more only when the rest fails (backtracking).
  \<open>k\<close> gets the text taken so far and the input left.
\<close>

fun dot_plus_lazy ::
  "(js_string \<Rightarrow> js_string \<Rightarrow> 'a option) \<Rightarrow> js_string \<Rightarrow> js_string \<Rightarrow> 'a option" where
  "dot_plus_lazy k taken [] = None"
| "dot_plus_lazy k taken (u # us) =
     (if is_line_terminator u then None
      else (case k (taken @ [u]) us of
              Some r \<Rightarrow> Some r
            | None \<Rightarrow> dot_plus_lazy k (taken @ [u]) us))"

text \<open>The literal \<^verbatim>\<open>:\<close> followed by the rest of the pattern.\<close>

fun lit_colon :: "(js_string \<Rightarrow> 'a option) \<Rightarrow> js_string \<Rightarrow> 'a option" where
  "lit_colon k [] = None"
| "lit_colon k (u # us) = (if u = colon then k us else None)"

text \<open>
  The whole pattern, anchored at the start of the key; the result is capture group 1.
\<close>

definition regex_exec :: "js_string \<Rightarrow> js_string option" where
  "regex_exec key =
     dot_plus_lazy (\<lambda>_. lit_colon
       (dot_plus_lazy (\<lambda>g1. lit_colon
         (dot_plus_lazy (\<lambda>_ rest. if rest = [] then Some g1 else None) [])) [])) [] key"

text \<open>
  \<^verbatim>\<open>key.replace(/^.+?:(.+?):.+?$/, '$1')\<close>: a match covers the whole key, so the result
  is the capture; a key that does not match is returned unchanged.
\<close>

definition queue_name_of :: "js_string \<Rightarrow> js_string" where
  "queue_name_of key = (case regex_exec key of Some g1 \<Rightarrow> g1 | None \<Rightarrow> key)"

subsection \<open>Deduplication and sorting\<close>

text \<open>
  \<^verbatim>\<open>new Set(...)\<close> keeps the first occurrence of each value, in insertion order;
  \<^verbatim>\<open>Array.from(uniqKeys).sort()\<close> then sorts the names by code units.
\<close>

definition uniq :: "'a list \<Rightarrow> 'a list" where
  "uniq xs = fold (\<lambda>x seen. if x \<in> set seen then seen else seen @ [x]) xs []"

definition scan_names :: "js_string list \<Rightarrow> js_string list" where
  "scan_names ks = sort (uniq (map queue_name_of ks))"

section \<open>Configuration\<close>

text \<open>
  \<^verbatim>\<open>require('./config')\<close> is not part of the script; its values are parameters. The
  two values the script puts into template strings and paths are strings; the others are
  only tested for truthiness, compared with \<^verbatim>\<open>===\<close> or passed on.
\<close>

record config =
  REDIS_PORT :: js_val
  REDIS_HOST :: js_val
  REDIS_DB :: js_val
  REDIS_PASSWORD :: js_val
  REDIS_USE_TLS :: js_val
  BULL_PREFIX :: js_string
  BULL_VERSION :: js_val
  AUTH_ENABLED :: js_val
  HOME_PAGE :: js_string
  LOGIN_PAGE :: js_string
  PORT :: js_val

text \<open>
  \<^verbatim>\<open>redisConfig\<close>: the spread \<^verbatim>\<open>...(config.REDIS_PASSWORD && {password: ...})\<close> adds the
  key only for a truthy password.
\<close>

definition redisConfig :: "config \<Rightarrow> js_val" where
  "redisConfig c =
     Obj [(''redis'',
       Obj ([(''port'', REDIS_PORT c), (''host'', REDIS_HOST c), (''db'', REDIS_DB c)]
            @ (if truthy (REDIS_PASSWORD c) then [(''password'', REDIS_PASSWORD c)] else [])
            @ [(''tls'', Bool (REDIS_USE_TLS c = Str (js ''true'')))]))]"

section \<open>The adapter factory\<close>

text \<open>
  The two queue-client families are libraries. What the script decides is which
  constructor it calls and with which arguments:
  \<^verbatim>\<open>new BullMQAdapter(new bullmq.Queue(item, options))\<close> or
  \<^verbatim>\<open>new BullAdapter(new Queue(item, redisConfig))\<close>.
\<close>

datatype client_call =
    NewBullMQ (call_item: js_string) (call_options: js_val)
  | NewBull (call_item: js_string) (call_options: js_val)

definition make_call :: "config \<Rightarrow> js_string \<Rightarrow> client_call" where
  "make_call c item =
     (if BULL_VERSION c = Str (js ''BULLMQ'') then
        let options = Obj [(''connection'', get_prop (redisConfig c) ''redis'')];
            options = (if BULL_PREFIX c \<noteq> [] then set_prop options ''prefix'' (Str (BULL_PREFIX c))
                       else options)
        in NewBullMQ item options
      else NewBull item (redisConfig c))"

section \<open>Adapters, queues and the registry\<close>

text \<open>
  An adapter is an object of which the handler reads \<^verbatim>\<open>.queue\<close>, then \<^verbatim>\<open>.name\<close> of the
  queue, and calls \<^verbatim>\<open>.obliterate\<close>. Either read can throw (a \<^verbatim>\<open>TypeError\<close> on a missing
  object, a throwing getter); \<^verbatim>\<open>obliterate\<close> acts on the store \<open>'w\<close> and resolves or rejects.
\<close>

datatype 'w queue_obj =
  QueueObj (name: "js_error + js_val")
           (obliterate: "js_val \<Rightarrow> 'w \<Rightarrow> (js_error + unit) \<times> 'w")

datatype 'w adapter = QueueAdapter (queue: "js_error + 'w queue_obj")

datatype console_line =
    ConsoleLog js_string
  | ConsoleError js_string js_error

text \<open>
  The mutable state of the process that discovery writes: the global \<^verbatim>\<open>queueList\<close>, the
  list the dashboard shows (\<^verbatim>\<open>setQueues\<close>) and the console lines of the discovery pass.
\<close>

record 'w app_state =
  queueList :: "'w adapter list"
  board_queues :: "'w adapter list"
  console :: "console_line list"

text \<open>\<^verbatim>\<open>let queueList = []\<close> and \<^verbatim>\<open>createBullBoard({queues: [], serverAdapter})\<close>.\<close>

definition initial_state :: "'w app_state" where
  "initial_state = \<lparr>queueList = [], board_queues = [], console = []\<rparr>"

section \<open>The discovery pass\<close>

text \<open>The store client: \<^verbatim>\<open>client.connect()\<close> and \<^verbatim>\<open>client.keys(pattern)\<close> resolve or reject.\<close>

record redis_client =
  connect :: "js_error + unit"
  keys :: "js_string \<Rightarrow> js_error + js_string list"

definition scan_pattern :: "config \<Rightarrow> js_string" where
  "scan_pattern c = BULL_PREFIX c @ js '':*''"

text \<open>
  The scanner: \<^verbatim>\<open>client.keys(`${config.BULL_PREFIX}:*`)\<close>, then the names of the keys,
  deduplicated and sorted.
\<close>

definition scanner :: "config \<Rightarrow> redis_client \<Rightarrow> js_error + js_string list" where
  "scanner c client =
     (case keys client (scan_pattern c) of
        Inl e \<Rightarrow> Inl e
      | Inr ks \<Rightarrow> Inr (scan_names ks))"

text \<open>
  The callback of \<^verbatim>\<open>.map\<close> over the sorted names; \<open>lib\<close> stands for the libraries'
  constructors. A constructor that throws ends the \<^verbatim>\<open>map\<close>.
\<close>

fun construct_all ::
  "(client_call \<Rightarrow> js_error + 'a) \<Rightarrow> config \<Rightarrow> js_string list \<Rightarrow> js_error + 'a list" where
  "construct_all lib c [] = Inr []"
| "construct_all lib c (item # items) =
     (case lib (make_call c item) of
        Inl e \<Rightarrow> Inl e
      | Inr a \<Rightarrow> (case construct_all lib c items of
                    Inl e \<Rightarrow> Inl e
                  | Inr as \<Rightarrow> Inr (a # as)))"

text \<open>The body of the asynchronous function: its result is the promise's.\<close>

definition discover ::
  "config \<Rightarrow> redis_client \<Rightarrow> (client_call \<Rightarrow> js_error + 'w adapter) \<Rightarrow> 'w app_state
     \<Rightarrow> (js_error + unit) \<times> 'w app_state" where
  "discover c client lib st =
     (case connect client of
        Inl e \<Rightarrow> (Inl e, st)
      | Inr _ \<Rightarrow>
          (case scanner c client of
             Inl e \<Rightarrow> (Inl e, st)
           | Inr names \<Rightarrow>
               (case construct_all lib c names of
                  Inl e \<Rightarrow> (Inl e, st)
                | Inr as \<Rightarrow>
                    (Inr (), st\<lparr>queueList := as, board_queues := as,
                                 console := console st @ [ConsoleLog (js ''done!'')]\<rparr>))))"

text \<open>The call with its \<^verbatim>\<open>.catch\<close>: a rejection is written to the console.\<close>

definition run_discovery ::
  "config \<Rightarrow> redis_client \<Rightarrow> (client_call \<Rightarrow> js_error + 'w adapter) \<Rightarrow> 'w app_state
     \<Rightarrow> 'w app_state" where
  "run_discovery c client lib st =
     (case discover c client lib st of
        (Inl err, st') \<Rightarrow>
          st'\<lparr>console := console st' @ [ConsoleError (js ''Error setting up queues:'') err]\<rparr>
      | (Inr _, st') \<Rightarrow> st')"

section \<open>The bulk reset handler\<close>

record response =
  status :: nat
  body :: js_val

text \<open>
  The \<^verbatim>\<open>for ... of\<close> loop with its inner \<^verbatim>\<open>try\<close>: the two property reads are outside
  the inner \<^verbatim>\<open>try\<close>, the call of \<^verbatim>\<open>obliterate({ force: true })\<close> is inside.
\<close>

fun clean_loop ::
  "'w adapter list \<Rightarrow> js_val list \<Rightarrow> 'w \<Rightarrow> (js_error + js_val list) \<times> 'w" where
  "clean_loop [] results w = (Inr results, w)"
| "clean_loop (queueAdapter # rest) results w =
     (case queue queueAdapter of
        Inl e \<Rightarrow> (Inl e, w)
      | Inr q \<Rightarrow>
          (case name q of
             Inl e \<Rightarrow> (Inl e, w)
           | Inr queueName \<Rightarrow>
               (case obliterate q (Obj [(''force'', Bool True)]) w of
                  (Inr _, w') \<Rightarrow>
                    clean_loop rest
                      (results @ [Obj [(''queue'', queueName), (''status'', Str (js ''success''))]]) w'
                | (Inl err, w') \<Rightarrow>
                    clean_loop rest
                      (results @ [Obj [(''queue'', queueName), (''status'', Str (js ''error'')),
                                       (''error'', Str (message err))]]) w')))"

text \<open>
  The handler with its outer \<^verbatim>\<open>try\<close>; \<^verbatim>\<open>res.json\<close> answers with status 200 unless
  \<^verbatim>\<open>res.status(500)\<close> came first.
\<close>

definition cleanAllQueuesHandler :: "'w adapter list \<Rightarrow> 'w \<Rightarrow> response \<times> 'w" where
  "cleanAllQueuesHandler queue_list w =
     (case clean_loop queue_list [] w of
        (Inr results, w') \<Rightarrow>
          (\<lparr>status = 200, body = Obj [(''success'', Bool True), (''results'', Arr results)]\<rparr>, w')
      | (Inl err, w') \<Rightarrow>
          (\<lparr>status = 500,
            body = Obj [(''success'', Bool False), (''error'', Str (message err))]\<rparr>, w'))"

section \<open>The middleware stack\<close>

text \<open>
  The calls of \<^verbatim>\<open>app.use\<close> and \<^verbatim>\<open>app.post\<close>, in the order the script makes them. A layer
  is a mount path (none for \<^verbatim>\<open>app.use(fn)\<close>) or a POST route path, with its chain of
  functions.
\<close>

datatype middleware =
    Morgan
  | SetProxyUrl
  | Session
  | PassportInitialize
  | PassportSession
  | BodyParserUrlencoded
  | BodyParserJson
  | AuthRouter
  | EnsureLoggedIn js_string
  | InjectButtonMiddleware
  | BullBoardRouter
  | CleanAllQueuesHandler

datatype layer =
    Use "js_string option" (chain: "middleware list")
  | Post js_string (chain: "middleware list")

fun is_post :: "layer \<Rightarrow> bool" where
  "is_post (Post _ _) = True"
| "is_post (Use _ _) = False"

definition clean_all_path :: js_string where
  "clean_all_path = js ''/api/clean-all-queues''"

text \<open>\<open>env\<close> is \<^verbatim>\<open>app.get('env')\<close>.\<close>

definition app_layers :: "config \<Rightarrow> js_string \<Rightarrow> layer list" where
  "app_layers c env =
     (if env \<noteq> js ''production'' then [Use None [Morgan]] else [])
     @ [Use None [SetProxyUrl], Use None [Session], Use None [PassportInitialize],
        Use None [PassportSession], Use None [BodyParserUrlencoded], Use None [BodyParserJson]]
     @ (if truthy (AUTH_ENABLED c) then
          [Use (Some (LOGIN_PAGE c)) [AuthRouter],
           Post (HOME_PAGE c @ clean_all_path) [CleanAllQueuesHandler]]
        else [Post (HOME_PAGE c @ clean_all_path) [CleanAllQueuesHandler]])
     @ [Post clean_all_path [CleanAllQueuesHandler]]
     @ (if truthy (AUTH_ENABLED c) then
          [Use (Some (HOME_PAGE c))
             [EnsureLoggedIn (LOGIN_PAGE c), InjectButtonMiddleware, BullBoardRouter]]
        else [Use (Some (HOME_PAGE c)) [InjectButtonMiddleware, BullBoardRouter]])"

text \<open>
  How a request \<open>r\<close> travels through the stack. Whether a layer's path matches the request
  (\<open>mt\<close>) and whether a library's function calls \<^verbatim>\<open>next()\<close> on it (\<open>ext\<close>) are the framework's
  and the libraries' business; the three functions the script defines are read from it:
  the two middlewares always call \<^verbatim>\<open>next()\<close>, the handler never does.
\<close>

fun passes :: "(middleware \<Rightarrow> 'r \<Rightarrow> bool) \<Rightarrow> middleware \<Rightarrow> 'r \<Rightarrow> bool" where
  "passes ext CleanAllQueuesHandler r = False"
| "passes ext SetProxyUrl r = True"
| "passes ext InjectButtonMiddleware r = True"
| "passes ext m r = ext m r"

text \<open>The function of a chain that ends the request, if one does.\<close>

fun run_chain :: "(middleware \<Rightarrow> 'r \<Rightarrow> bool) \<Rightarrow> middleware list \<Rightarrow> 'r \<Rightarrow> middleware option" where
  "run_chain ext [] r = None"
| "run_chain ext (m # ms) r = (if passes ext m r then run_chain ext ms r else Some m)"

fun dispatch ::
  "(layer \<Rightarrow> 'r \<Rightarrow> bool) \<Rightarrow> (middleware \<Rightarrow> 'r \<Rightarrow> bool) \<Rightarrow> layer list \<Rightarrow> 'r \<Rightarrow> middleware option" where
  "dispatch mt ext [] r = None"
| "dispatch mt ext (l # ls) r =
     (if mt l r then
        (case run_chain ext (chain l) r of
           Some m \<Rightarrow> Some m
         | None \<Rightarrow> dispatch mt ext ls r)
      else dispatch mt ext ls r)"

text \<open>
  The process once the script has run and the discovery promise has settled: the stack,
  the port of \<^verbatim>\<open>app.listen\<close> and the state discovery left.
\<close>

record 'w process =
  layers :: "layer list"
  listening :: "js_val option"
  state :: "'w app_state"

definition main ::
  "config \<Rightarrow> js_string \<Rightarrow> redis_client \<Rightarrow> (client_call \<Rightarrow> js_error + 'w adapter) \<Rightarrow> 'w process" where
  "main c env client lib =
     \<lparr>layers = app_layers c env, listening = Some (PORT c),
      state = run_discovery c client lib initial_state\<rparr>"

section \<open>What the specification says, in its words\<close>

text \<open>
  The bulk reset as the specification describes it: for each adapter, clear its queue,
  record \<open>{queue, status: success}\<close> or \<open>{queue, status: error, error}\<close>, go on to the next.
  It is defined on adapters whose queue and name can be read.
\<close>

definition force_true :: js_val where
  "force_true = Obj [(''force'', Bool True)]"

definition success_outcome :: "js_val \<Rightarrow> js_val" where
  "success_outcome n = Obj [(''queue'', n), (''status'', Str (js ''success''))]"

definition error_outcome :: "js_val \<Rightarrow> js_string \<Rightarrow> js_val" where
  "error_outcome n msg =
     Obj [(''queue'', n), (''status'', Str (js ''error'')), (''error'', Str msg)]"

definition read_error :: "'w adapter \<Rightarrow> js_error option" where
  "read_error a =
     (case queue a of
        Inl e \<Rightarrow> Some e
      | Inr q \<Rightarrow> (case name q of Inl e \<Rightarrow> Some e | Inr _ \<Rightarrow> None))"

definition readable :: "'w adapter \<Rightarrow> bool" where
  "readable a = (read_error a = None)"

definition queue_of :: "'w adapter \<Rightarrow> 'w queue_obj" where
  "queue_of a = projr (queue a)"

definition name_of :: "'w adapter \<Rightarrow> js_val" where
  "name_of a = projr (name (queue_of a))"

definition outcome_of :: "'w adapter \<Rightarrow> js_error + unit \<Rightarrow> js_val" where
  "outcome_of a r =
     (case r of Inr _ \<Rightarrow> success_outcome (name_of a)
              | Inl e \<Rightarrow> error_outcome (name_of a) (message e))"

fun reset_spec :: "'w adapter list \<Rightarrow> 'w \<Rightarrow> js_val list \<times> 'w" where
  "reset_spec [] w = ([], w)"
| "reset_spec (a # as) w =
     (let (r, w') = obliterate (queue_of a) force_true w;
          (outcomes, w'') = reset_spec as w'
      in (outcome_of a r # outcomes, w''))"

text \<open>
  The keys the specification speaks of, \<open><prefix>:<name>:<suffix>\<close>: a segment is not
  empty and holds no separator; \<open>plain\<close> text holds no line terminator.
\<close>

definition plain :: "js_string \<Rightarrow> bool" where
  "plain s = (\<forall>u \<in> set s. \<not> is_line_terminator u)"

definition segment :: "js_string \<Rightarrow> bool" where
  "segment s = (s \<noteq> [] \<and> colon \<notin> set s \<and> plain s)"

text \<open>
  A text without the store's pattern characters \<^verbatim>\<open>*\<close>, \<^verbatim>\<open>?\<close>, \<^verbatim>\<open>[\<close> and the backslash:
  in a pattern it stands for itself.
\<close>

definition glob_literal :: "js_string \<Rightarrow> bool" where
  "glob_literal q = (\<forall>u \<in> set q. u \<noteq> 0x2A \<and> u \<noteq> 0x3F \<and> u \<noteq> 0x5B \<and> u \<noteq> 0x5C)"

section \<open>Example inputs\<close>

definition bullmq_config :: config where
  "bullmq_config =
     \<lparr>REDIS_PORT = Num 6379, REDIS_HOST = Str (js ''localhost''), REDIS_DB = Str (js ''0''),
      REDIS_PASSWORD = Undefined, REDIS_USE_TLS = Undefined, BULL_PREFIX = js ''bull'',
      BULL_VERSION = Str (js ''BULLMQ''), AUTH_ENABLED = Bool True, HOME_PAGE = js ''/'',
      LOGIN_PAGE = js ''/login'', PORT = Num 3000\<rparr>"

definition legacy_config :: config where
  "legacy_config = bullmq_config\<lparr>BULL_VERSION := Str (js ''BULL'')\<rparr>"

definition colon_prefix_config :: config where
  "colon_prefix_config = bullmq_config\<lparr>BULL_PREFIX := js ''app:bull''\<rparr>"

text \<open>A store that answers a pattern \<open>q*\<close> with its keys that begin with \<open>q\<close>.\<close>

definition store_of :: "js_string list \<Rightarrow> redis_client" where
  "store_of keyspace = \<lparr>connect = Inr (), keys = (\<lambda>pat. Inr (filter (prefix (butlast pat)) keyspace))\<rparr>"

definition example_keyspace :: "js_string list" where
  "example_keyspace = [js ''bull:B:1'', js ''bullet:C:1'', js ''bull:A:1'', js ''bull:A:2'']"

definition colon_prefix_keyspace :: "js_string list" where
  "colon_prefix_keyspace = [js ''app:bull:A:1'', js ''app:bull:A:2'', js ''app:bull:B:1'']"

definition unreachable_store :: redis_client where
  "unreachable_store = \<lparr>connect = Inr (), keys = (\<lambda>pat. Inl (JsError (js ''ECONNRESET'')))\<rparr>"

text \<open>Queues over a store that counts the queues cleared.\<close>

definition ok_queue :: "js_string \<Rightarrow> nat queue_obj" where
  "ok_queue n =
     QueueObj (Inr (Str n))
       (\<lambda>opts w. if get_prop opts ''force'' = Bool True then (Inr (), Suc w)
                  else (Inl (JsError (js ''not forced'')), w))"

definition failing_queue :: "js_string \<Rightarrow> nat queue_obj" where
  "failing_queue n = QueueObj (Inr (Str n)) (\<lambda>opts w. (Inl (JsError (js ''boom'')), w))"

definition three_queues :: "nat adapter list" where
  "three_queues =
     [QueueAdapter (Inr (ok_queue (js ''A''))), QueueAdapter (Inr (failing_queue (js ''B''))),
      QueueAdapter (Inr (ok_queue (js ''C'')))]"

definition nameless_adapter :: "nat adapter" where
  "nameless_adapter = QueueAdapter (Inl (JsError (js ''no queue'')))"

text \<open>Constructors that give each queue the name they are called with.\<close>

definition naming_lib :: "client_call \<Rightarrow> js_error + nat adapter" where
  "naming_lib call = Inr (QueueAdapter (Inr (ok_queue (call_item call))))"

text \<open>
  A request is its path; a route matches its own path, a mount path the paths that begin
  with it; the login guard turns every request away.
\<close>

fun path_matches :: "layer \<Rightarrow> js_string \<Rightarrow> bool" where
  "path_matches (Use None _) r = True"
| "path_matches (Use (Some p) _) r = prefix p r"
| "path_matches (Post p _) r = (r = p)"

fun guard_rejects :: "middleware \<Rightarrow> js_string \<Rightarrow> bool" where
  "guard_rejects (EnsureLoggedIn _) r = False"
| "guard_rejects _ r = True"

section \<open>Bulk reset: lemmas\<close>

lemma fst_reset_spec_Cons:
  "fst (reset_spec (a # as) w) =
     outcome_of a (fst (obliterate (queue_of a) force_true w))
       # fst (reset_spec as (snd (obliterate (queue_of a) force_true w)))"
  by (simp split: prod.splits)

lemma snd_reset_spec_Cons:
  "snd (reset_spec (a # as) w) =
     snd (reset_spec as (snd (obliterate (queue_of a) force_true w)))"
  by (simp split: prod.splits)

lemmas reset_spec_Cons = fst_reset_spec_Cons snd_reset_spec_Cons

lemma clean_loop_readable:
  "\<forall>a \<in> set qs. readable a \<Longrightarrow>
   clean_loop qs acc w = (Inr (acc @ fst (reset_spec qs w)), snd (reset_spec qs w))"
proof (induction qs arbitrary: acc w)
  case Nil
  show ?case by simp
next
  case (Cons a qs)
  from Cons.prems have ra: "readable a" and rest: "\<forall>x \<in> set qs. readable x"
    by simp_all
  from ra obtain q n where q: "queue a = Inr q" and n: "name q = Inr n"
    by (auto simp: readable_def read_error_def split: sum.splits)
  obtain r w' where step: "obliterate q force_true w = (r, w')"
    by (cases "obliterate q force_true w")
  have na: "name_of a = n" and qa: "queue_of a = q"
    using q n by (simp_all add: name_of_def queue_of_def)
  show ?case
  proof (cases r)
    case (Inl e)
    with step q n na qa Cons.IH [OF rest] show ?thesis
      by (simp add: force_true_def [symmetric] outcome_of_def error_outcome_def reset_spec_Cons
          del: reset_spec.simps)
  next
    case (Inr u)
    with step q n na qa Cons.IH [OF rest] show ?thesis
      by (simp add: force_true_def [symmetric] outcome_of_def success_outcome_def reset_spec_Cons
          del: reset_spec.simps)
  qed
qed

lemma length_reset_spec: "length (fst (reset_spec qs w)) = length qs"
  by (induction qs arbitrary: w) (simp_all add: reset_spec_Cons del: reset_spec.simps(2))

lemma reset_spec_nth:
  "i < length qs \<Longrightarrow>
   \<exists>w'. fst (reset_spec qs w) ! i
          = outcome_of (qs ! i) (fst (obliterate (queue_of (qs ! i)) force_true w'))"
proof (induction qs arbitrary: i w)
  case Nil
  then show ?case by simp
next
  case (Cons a qs)
  show ?case
  proof (cases i)
    case 0
    then have "fst (reset_spec (a # qs) w) ! i
        = outcome_of ((a # qs) ! i) (fst (obliterate (queue_of ((a # qs) ! i)) force_true w))"
      by (simp add: reset_spec_Cons del: reset_spec.simps(2))
    then show ?thesis by blast
  next
    case (Suc j)
    with Cons.prems have "j < length qs" by simp
    from Cons.IH [OF this] obtain w' where
      "fst (reset_spec qs (snd (obliterate (queue_of a) force_true w))) ! j
        = outcome_of (qs ! j) (fst (obliterate (queue_of (qs ! j)) force_true w'))" by blast
    with Suc have "fst (reset_spec (a # qs) w) ! i
        = outcome_of ((a # qs) ! i) (fst (obliterate (queue_of ((a # qs) ! i)) force_true w'))"
      by (simp add: reset_spec_Cons del: reset_spec.simps(2))
    then show ?thesis by blast
  qed
qed

lemma queue_of_outcome: "get_prop (outcome_of a r) ''queue'' = name_of a"
  by (cases r) (simp_all add: outcome_of_def success_outcome_def error_outcome_def)

lemma queue_names_reset_spec:
  "map (\<lambda>out. get_prop out ''queue'') (fst (reset_spec qs w)) = map name_of qs"
  by (induction qs arbitrary: w)
     (simp_all add: reset_spec_Cons queue_of_outcome del: reset_spec.simps(2))

lemma clean_loop_unreadable:
  "\<forall>a \<in> set pre. readable a \<Longrightarrow> read_error a = Some e \<Longrightarrow>
   clean_loop (pre @ a # post) acc w = (Inl e, snd (reset_spec pre w))"
proof (induction pre arbitrary: acc w)
  case Nil
  then show ?case
    by (auto simp: read_error_def split: sum.splits)
next
  case (Cons b pre)
  from Cons.prems have rb: "readable b" and rest: "\<forall>x \<in> set pre. readable x"
    by simp_all
  from rb obtain q n where q: "queue b = Inr q" and n: "name q = Inr n"
    by (auto simp: readable_def read_error_def split: sum.splits)
  have qb: "queue_of b = q" using q by (simp add: queue_of_def)
  obtain r w' where step: "obliterate q force_true w = (r, w')"
    by (cases "obliterate q force_true w")
  show ?case
    using step q n qb Cons.IH [OF rest Cons.prems(2)]
    by (cases r)
       (simp_all add: force_true_def [symmetric] reset_spec_Cons del: reset_spec.simps(2))
qed

section \<open>The scanner: lemmas\<close>

lemma dot_plus_lazy_Some:
  "dot_plus_lazy k taken s = Some r \<Longrightarrow>
   \<exists>xs ys. xs \<noteq> [] \<and> s = xs @ ys \<and> plain xs \<and> k (taken @ xs) ys = Some r"
proof (induction s arbitrary: taken)
  case Nil
  then show ?case by simp
next
  case (Cons u us)
  from Cons.prems have u: "\<not> is_line_terminator u"
    by (simp split: if_splits)
  show ?case
  proof (cases "k (taken @ [u]) us")
    case (Some r')
    with Cons.prems u have "k (taken @ [u]) us = Some r" by simp
    with u have "[u] \<noteq> [] \<and> u # us = [u] @ us \<and> plain [u] \<and> k (taken @ [u]) us = Some r"
      by (simp add: plain_def)
    then show ?thesis by blast
  next
    case None
    with Cons.prems u have "dot_plus_lazy k (taken @ [u]) us = Some r" by simp
    from Cons.IH [OF this] obtain xs ys where
      *: "xs \<noteq> []" "us = xs @ ys" "plain xs" "k ((taken @ [u]) @ xs) ys = Some r" by blast
    with u have "u # xs \<noteq> [] \<and> u # us = (u # xs) @ ys \<and> plain (u # xs)
        \<and> k (taken @ (u # xs)) ys = Some r"
      by (simp add: plain_def)
    then show ?thesis by blast
  qed
qed

lemma dot_plus_lazy_first:
  "xs \<noteq> [] \<Longrightarrow> plain xs \<Longrightarrow> k (taken @ xs) ys = Some r \<Longrightarrow>
   (\<And>a b. xs = a @ b \<Longrightarrow> a \<noteq> [] \<Longrightarrow> b \<noteq> [] \<Longrightarrow> k (taken @ a) (b @ ys) = None) \<Longrightarrow>
   dot_plus_lazy k taken (xs @ ys) = Some r"
proof (induction xs arbitrary: taken)
  case Nil
  then show ?case by simp
next
  case (Cons u us)
  from Cons.prems(2) have u: "\<not> is_line_terminator u" and pus: "plain us"
    by (simp_all add: plain_def)
  show ?case
  proof (cases "us = []")
    case True
    with Cons.prems(3) u show ?thesis by simp
  next
    case False
    have none: "k (taken @ [u]) (us @ ys) = None"
      using Cons.prems(4) [of "[u]" us] False by simp
    have "dot_plus_lazy k (taken @ [u]) (us @ ys) = Some r"
    proof (rule Cons.IH [OF False pus])
      show "k ((taken @ [u]) @ us) ys = Some r" using Cons.prems(3) by simp
    next
      fix a b assume "us = a @ b" "a \<noteq> []" "b \<noteq> []"
      then show "k ((taken @ [u]) @ a) (b @ ys) = None"
        using Cons.prems(4) [of "u # a" b] by simp
    qed
    with u none show ?thesis by simp
  qed
qed

lemma lit_colon_other: "b \<noteq> [] \<Longrightarrow> colon \<notin> set b \<Longrightarrow> lit_colon k (b @ ys) = None"
  by (cases b) auto

lemma colon_plain: "\<not> is_line_terminator colon"
  by (simp add: is_line_terminator_def colon_def)

lemma regex_exec_three_segments:
  assumes p: "segment p" and n: "segment n" and s: "s \<noteq> []" "plain s"
  shows "regex_exec (p @ colon # n @ colon # s) = Some n"
proof -
  let ?k3 = "\<lambda>(_::js_string) rest. if rest = [] then Some n else None"
  let ?k2 = "\<lambda>g1. lit_colon (dot_plus_lazy (\<lambda>_ rest. if rest = [] then Some g1 else None) [])"
  let ?k1 = "\<lambda>_::js_string. lit_colon (dot_plus_lazy ?k2 [])"
  have third: "dot_plus_lazy ?k3 [] s = Some n"
    using dot_plus_lazy_first [of s ?k3 "[]" "[]" n] s by simp
  have second: "dot_plus_lazy ?k2 [] (n @ colon # s) = Some n"
  proof (rule dot_plus_lazy_first)
    show "n \<noteq> []" "plain n" using n by (simp_all add: segment_def)
    show "?k2 ([] @ n) (colon # s) = Some n" using third by (simp cong del: if_weak_cong)
  next
    fix a b assume "n = a @ b" "a \<noteq> []" "b \<noteq> []"
    with n have "colon \<notin> set b" by (simp add: segment_def)
    with \<open>b \<noteq> []\<close> show "?k2 ([] @ a) (b @ colon # s) = None"
      by (simp add: lit_colon_other)
  qed
  have first: "dot_plus_lazy ?k1 [] (p @ colon # n @ colon # s) = Some n"
  proof (rule dot_plus_lazy_first)
    show "p \<noteq> []" "plain p" using p by (simp_all add: segment_def)
    show "?k1 ([] @ p) (colon # n @ colon # s) = Some n" using second by simp
  next
    fix a b assume "p = a @ b" "a \<noteq> []" "b \<noteq> []"
    with p have "colon \<notin> set b" by (simp add: segment_def)
    with \<open>b \<noteq> []\<close> show "?k1 ([] @ a) (b @ colon # n @ colon # s) = None"
      by (simp add: lit_colon_other)
  qed
  then show ?thesis by (simp add: regex_exec_def)
qed

lemma regex_exec_nonempty: "regex_exec key = Some g \<Longrightarrow> g \<noteq> []"
proof -
  assume "regex_exec key = Some g"
  then obtain p r1 where "lit_colon (dot_plus_lazy (\<lambda>g1. lit_colon
         (dot_plus_lazy (\<lambda>_ rest. if rest = [] then Some g1 else None) [])) []) r1 = Some g"
    unfolding regex_exec_def by (blast dest: dot_plus_lazy_Some)
  then obtain r2 where "dot_plus_lazy (\<lambda>g1. lit_colon
         (dot_plus_lazy (\<lambda>_ rest. if rest = [] then Some g1 else None) [])) [] r2 = Some g"
    by (cases r1) (simp_all split: if_splits)
  then obtain n r3 where n: "n \<noteq> []" and
    "lit_colon (dot_plus_lazy (\<lambda>_ rest. if rest = [] then Some ([] @ n) else None) []) r3 = Some g"
    by (blast dest: dot_plus_lazy_Some)
  then obtain r4 where
    "dot_plus_lazy (\<lambda>_ rest. if rest = [] then Some n else None) [] r4 = Some g"
    by (cases r3) (simp_all cong del: if_weak_cong split: if_splits)
  then have "g = n"
    by (auto dest!: dot_plus_lazy_Some split: if_splits)
  with n show ?thesis by simp
qed

lemma queue_name_of_nonempty: "key \<noteq> [] \<Longrightarrow> queue_name_of key \<noteq> []"
  by (auto simp: queue_name_of_def dest: regex_exec_nonempty split: option.splits)


lemma queue_name_of_three_segments:
  "segment p \<Longrightarrow> segment n \<Longrightarrow> s \<noteq> [] \<Longrightarrow> plain s \<Longrightarrow>
   queue_name_of (p @ colon # n @ colon # s) = n"
  by (simp add: queue_name_of_def regex_exec_three_segments)

lemma fold_uniq:
  "distinct acc \<Longrightarrow>
   distinct (fold (\<lambda>x seen. if x \<in> set seen then seen else seen @ [x]) xs acc)
   \<and> set (fold (\<lambda>x seen. if x \<in> set seen then seen else seen @ [x]) xs acc) = set acc \<union> set xs"
  by (induction xs arbitrary: acc) auto

lemma distinct_uniq: "distinct (uniq xs)"
  using fold_uniq [of "[]" xs] by (simp add: uniq_def)

lemma set_uniq: "set (uniq xs) = set xs"
  using fold_uniq [of "[]" xs] by (simp add: uniq_def)

lemma scan_names_props:
  "sorted (scan_names ks)" "distinct (scan_names ks)"
  "set (scan_names ks) = queue_name_of ` set ks"
  by (simp_all add: scan_names_def distinct_uniq set_uniq)

lemma first_colon_unique:
  assumes "colon \<notin> set a" "colon \<notin> set b" "a @ colon # x = b @ colon # y"
  shows "a = b"
proof -
  have "takeWhile (\<lambda>u. u \<noteq> colon) (a @ colon # x) = a"
    using assms(1) by (induction a) auto
  moreover have "takeWhile (\<lambda>u. u \<noteq> colon) (b @ colon # y) = b"
    using assms(2) by (induction b) auto
  ultimately show ?thesis using assms(3) by simp
qed

lemma scan_pattern_split: "scan_pattern c = (BULL_PREFIX c @ [colon]) @ js ''*''"
  by (simp add: scan_pattern_def js_def colon_def)

lemma glob_literal_colon: "glob_literal q \<Longrightarrow> glob_literal (q @ [colon])"
  by (simp add: glob_literal_def colon_def)

section \<open>Discovery: lemmas\<close>

lemma call_item_make_call: "call_item (make_call c item) = item"
  by (simp add: make_call_def Let_def)

lemma construct_all_names:
  assumes "\<forall>call a. lib call = Inr a \<longrightarrow> readable a \<and> name_of a = Str (call_item call)"
  shows "construct_all lib c items = Inr as \<Longrightarrow>
         map name_of as = map Str items \<and> (\<forall>a \<in> set as. readable a)"
proof (induction items arbitrary: as)
  case Nil
  then show ?case by simp
next
  case (Cons item items)
  from Cons.prems obtain a as' where
    a: "lib (make_call c item) = Inr a" and as': "construct_all lib c items = Inr as'"
    and eq: "as = a # as'"
    by (auto split: sum.splits)
  from assms a call_item_make_call [of c item] have "readable a" "name_of a = Str item" by auto
  with Cons.IH [OF as'] eq show ?case by simp
qed

lemma scanner_sorted: "scanner c client = Inr names \<Longrightarrow> sorted names \<and> distinct names"
  by (auto simp: scanner_def scan_names_props split: sum.splits)

lemma queueList_run_discovery:
  "queueList (run_discovery c client lib initial_state) =
     (case connect client of
        Inl _ \<Rightarrow> []
      | Inr _ \<Rightarrow>
          (case scanner c client of
             Inl _ \<Rightarrow> []
           | Inr names \<Rightarrow> (case construct_all lib c names of Inl _ \<Rightarrow> [] | Inr as \<Rightarrow> as)))"
  by (simp add: run_discovery_def discover_def initial_state_def split: sum.splits)

section \<open>The example inputs: lemmas\<close>

lemma connect_store_of: "connect (store_of ks) = Inr ()"
  by (simp add: store_of_def)

lemma example_scan:
  "scanner bullmq_config (store_of example_keyspace) = Inr [js ''A'', js ''B'']"
  by (simp add: scanner_def scan_pattern_def store_of_def example_keyspace_def bullmq_config_def
      scan_names_def uniq_def queue_name_of_def regex_exec_def js_def colon_def
      is_line_terminator_def)

lemma segment_literal:
  "segment (js ''bull'')" "segment (js ''A'')" "segment (js ''B'')"
  "plain (js ''1'')" "plain (js ''2'')" "glob_literal (js ''bull'')"
  by (simp_all add: segment_def plain_def glob_literal_def js_def colon_def is_line_terminator_def)

lemma example_keys_form:
  "js ''bull:A:1'' = js ''bull'' @ colon # js ''A'' @ colon # js ''1''"
  "js ''bull:A:2'' = js ''bull'' @ colon # js ''A'' @ colon # js ''2''"
  "js ''bull:B:1'' = js ''bull'' @ colon # js ''B'' @ colon # js ''1''"
  by (simp_all add: js_def colon_def)

lemma queue_name_of_line_terminator:
  "queue_name_of (js ''bull:a'' @ [0x0A] @ js ''b:1'') = js ''bull:a'' @ [0x0A] @ js ''b:1''"
  by (simp add: queue_name_of_def regex_exec_def js_def colon_def is_line_terminator_def)

section \<open>The claims\<close>

subsection \<open>C1: one outcome per adapter, a failing queue does not stop the others\<close>

text \<open>
  C1. For every list of adapters whose queue and name can be read, the bulk reset answers
  with status 200 and exactly one outcome per adapter, in the order of the list: the
  outcomes are those of clearing each queue in turn with \<open>{force: true}\<close>, every queue is
  cleared whatever the earlier ones did, and the outcome of an adapter is
  \<open>{queue, status: success}\<close> when its call resolved and \<open>{queue, status: error, error}\<close>
  with the message caught when it threw.
\<close>

theorem bulk_reset_one_outcome_per_adapter:
  assumes "\<forall>a \<in> set qs. readable a"
  shows "\<exists>results w'.
           cleanAllQueuesHandler qs w =
             (\<lparr>status = 200, body = Obj [(''success'', Bool True), (''results'', Arr results)]\<rparr>, w')
         \<and> (results, w') = reset_spec qs w
         \<and> length results = length qs
         \<and> (\<forall>i < length qs.
               get_prop (results ! i) ''queue'' = name_of (qs ! i)
             \<and> (\<exists>v. case fst (obliterate (queue_of (qs ! i)) force_true v) of
                      Inr _ \<Rightarrow> results ! i = success_outcome (name_of (qs ! i))
                    | Inl e \<Rightarrow> results ! i = error_outcome (name_of (qs ! i)) (message e)))"
proof -
  let ?results = "fst (reset_spec qs w)" and ?w' = "snd (reset_spec qs w)"
  have handler: "cleanAllQueuesHandler qs w =
      (\<lparr>status = 200, body = Obj [(''success'', Bool True), (''results'', Arr ?results)]\<rparr>, ?w')"
    using clean_loop_readable [OF assms, of "[]" w] by (simp add: cleanAllQueuesHandler_def)
  have each: "get_prop (?results ! i) ''queue'' = name_of (qs ! i)
             \<and> (\<exists>v. case fst (obliterate (queue_of (qs ! i)) force_true v) of
                      Inr _ \<Rightarrow> ?results ! i = success_outcome (name_of (qs ! i))
                    | Inl e \<Rightarrow> ?results ! i = error_outcome (name_of (qs ! i)) (message e))"
    if i: "i < length qs" for i
  proof
    from reset_spec_nth [OF i, of w] obtain v where
      v: "?results ! i = outcome_of (qs ! i) (fst (obliterate (queue_of (qs ! i)) force_true v))"
      by blast
    then show "get_prop (?results ! i) ''queue'' = name_of (qs ! i)"
      by (simp add: queue_of_outcome)
    from v have "case fst (obliterate (queue_of (qs ! i)) force_true v) of
                      Inr _ \<Rightarrow> ?results ! i = success_outcome (name_of (qs ! i))
                    | Inl e \<Rightarrow> ?results ! i = error_outcome (name_of (qs ! i)) (message e)"
      by (simp add: outcome_of_def split: sum.splits)
    then show "\<exists>v. case fst (obliterate (queue_of (qs ! i)) force_true v) of
                      Inr _ \<Rightarrow> ?results ! i = success_outcome (name_of (qs ! i))
                    | Inl e \<Rightarrow> ?results ! i = error_outcome (name_of (qs ! i)) (message e)"
      by blast
  qed
  from handler each length_reset_spec [of qs w] show ?thesis
    by (intro exI [of _ ?results] exI [of _ ?w']) simp
qed

text \<open>
  The registry of three queues of which only the second throws: three outcomes, the
  first and the third a success, the second an error with the message; the two other
  queues were cleared.
\<close>

theorem bulk_reset_three_queues_witness:
  "list_all readable three_queues \<and>
   cleanAllQueuesHandler three_queues 0 =
     (\<lparr>status = 200,
       body = Obj [(''success'', Bool True),
                   (''results'', Arr [success_outcome (Str (js ''A'')),
                                      error_outcome (Str (js ''B'')) (js ''boom''),
                                      success_outcome (Str (js ''C''))])]\<rparr>, 2)"
proof -
  have r: "\<forall>a \<in> set three_queues. readable a"
    by (simp add: three_queues_def readable_def read_error_def ok_queue_def failing_queue_def)
  have "reset_spec three_queues 0 =
      ([success_outcome (Str (js ''A'')), error_outcome (Str (js ''B'')) (js ''boom''),
        success_outcome (Str (js ''C''))], 2)"
    by (simp add: three_queues_def ok_queue_def failing_queue_def queue_of_def name_of_def
        outcome_of_def force_true_def)
  with r bulk_reset_one_outcome_per_adapter [OF r, of 0] show ?thesis
    by (auto simp: list_all_iff simp del: reset_spec.simps)
qed

subsection \<open>C2: the options of the two client families\<close>

text \<open>
  The claim puts the namespace prefix on the legacy path and calls that path flat. With
  the legacy version and the prefix \<open>bull\<close> configured, the options the script passes are
  \<open>{redis: {port, host, db, tls}}\<close>: no \<open>prefix\<close>, no \<open>host\<close> or \<open>port\<close> at the top; with
  \<open>BULLMQ\<close> the same configuration does pass \<open>prefix\<close>.
\<close>

theorem legacy_options_counterexample:
  "BULL_VERSION legacy_config \<noteq> Str (js ''BULLMQ'')
   \<and> BULL_PREFIX legacy_config = js ''bull''
   \<and> call_options (make_call legacy_config (js ''A'')) =
       Obj [(''redis'', Obj [(''port'', Num 6379), (''host'', Str (js ''localhost'')),
                            (''db'', Str (js ''0'')), (''tls'', Bool False)])]
   \<and> \<not> has_prop (call_options (make_call legacy_config (js ''A''))) ''prefix''
   \<and> \<not> has_prop (call_options (make_call legacy_config (js ''A''))) ''host''
   \<and> \<not> has_prop (call_options (make_call legacy_config (js ''A''))) ''port''
   \<and> get_prop (call_options (make_call bullmq_config (js ''A''))) ''prefix'' = Str (js ''bull'')"
  by (simp add: legacy_config_def bullmq_config_def make_call_def redisConfig_def js_def)

text \<open>
  C2, amended. The options do not depend on the queue name. With the version \<open>BULLMQ\<close>
  the connection parameters are under the key \<open>connection\<close>, and it is this path that
  adds \<open>prefix\<close>, exactly when the configured prefix is not empty. With any other version
  the connection parameters are under the key \<open>redis\<close>. On neither path are \<open>host\<close> and
  \<open>port\<close> keys of the options themselves. The connection parameters are \<open>port\<close>,
  \<open>host\<close>, \<open>db\<close>, \<open>tls\<close>, and \<open>password\<close> exactly when one is configured.
\<close>

theorem make_call_option_shapes:
  "(BULL_VERSION c = Str (js ''BULLMQ'') \<longrightarrow>
      make_call c item = NewBullMQ item (call_options (make_call c item))
    \<and> get_prop (call_options (make_call c item)) ''connection'' = get_prop (redisConfig c) ''redis''
    \<and> (if BULL_PREFIX c \<noteq> []
        then get_prop (call_options (make_call c item)) ''prefix'' = Str (BULL_PREFIX c)
        else \<not> has_prop (call_options (make_call c item)) ''prefix'')
    \<and> \<not> has_prop (call_options (make_call c item)) ''host''
    \<and> \<not> has_prop (call_options (make_call c item)) ''port'')
   \<and> (BULL_VERSION c \<noteq> Str (js ''BULLMQ'') \<longrightarrow>
      make_call c item = NewBull item (call_options (make_call c item))
    \<and> get_prop (call_options (make_call c item)) ''redis'' = get_prop (redisConfig c) ''redis''
    \<and> \<not> has_prop (call_options (make_call c item)) ''connection''
    \<and> \<not> has_prop (call_options (make_call c item)) ''host''
    \<and> \<not> has_prop (call_options (make_call c item)) ''port'')
   \<and> get_prop (get_prop (redisConfig c) ''redis'') ''host'' = REDIS_HOST c
   \<and> get_prop (get_prop (redisConfig c) ''redis'') ''port'' = REDIS_PORT c
   \<and> get_prop (get_prop (redisConfig c) ''redis'') ''db'' = REDIS_DB c
   \<and> get_prop (get_prop (redisConfig c) ''redis'') ''tls'' = Bool (REDIS_USE_TLS c = Str (js ''true''))
   \<and> (if truthy (REDIS_PASSWORD c)
       then get_prop (get_prop (redisConfig c) ''redis'') ''password'' = REDIS_PASSWORD c
       else \<not> has_prop (get_prop (redisConfig c) ''redis'') ''password'')
   \<and> call_options (make_call c item) = call_options (make_call c item')"
  by (simp add: make_call_def redisConfig_def Let_def)

text \<open>
  The two paths at the example configuration.
\<close>

theorem make_call_option_shapes_witness:
  "BULL_VERSION bullmq_config = Str (js ''BULLMQ'')
   \<and> make_call bullmq_config (js ''A'') =
       NewBullMQ (js ''A'')
         (Obj [(''connection'', Obj [(''port'', Num 6379), (''host'', Str (js ''localhost'')),
                                    (''db'', Str (js ''0'')), (''tls'', Bool False)]),
               (''prefix'', Str (js ''bull''))])
   \<and> BULL_VERSION legacy_config \<noteq> Str (js ''BULLMQ'')
   \<and> get_prop (call_options (make_call legacy_config (js ''A''))) ''redis'' =
       Obj [(''port'', Num 6379), (''host'', Str (js ''localhost'')),
            (''db'', Str (js ''0'')), (''tls'', Bool False)]"
  using make_call_option_shapes [of bullmq_config "js ''A''" "js ''B''"]
        make_call_option_shapes [of legacy_config "js ''A''" "js ''B''"]
  by (simp add: legacy_config_def bullmq_config_def make_call_def redisConfig_def js_def)

subsection \<open>C3: the names the scanner returns\<close>

text \<open>
  The claim holds for no prefix that contains the separator: with the prefix
  \<open>app:bull\<close> and the keys \<open>app:bull:A:1\<close>, \<open>app:bull:A:2\<close>, \<open>app:bull:B:1\<close> the scanner
  returns the one name \<open>bull\<close>, since the expression takes the second segment of the key
  whatever the prefix is.
\<close>

theorem scanner_colon_prefix_counterexample:
  "BULL_PREFIX colon_prefix_config = js ''app:bull''
   \<and> keys (store_of colon_prefix_keyspace) (scan_pattern colon_prefix_config) =
       Inr [js ''app:bull:A:1'', js ''app:bull:A:2'', js ''app:bull:B:1'']
   \<and> scanner colon_prefix_config (store_of colon_prefix_keyspace) = Inr [js ''bull'']
   \<and> js ''A'' \<notin> set (scan_names [js ''app:bull:A:1'', js ''app:bull:A:2'', js ''app:bull:B:1''])"
  by (simp add: scanner_def scan_pattern_def store_of_def colon_prefix_keyspace_def
      colon_prefix_config_def bullmq_config_def scan_names_def uniq_def queue_name_of_def
      regex_exec_def js_def colon_def is_line_terminator_def)

text \<open>
  C3, amended. Let the store answer a pattern \<open>q*\<close> without pattern characters in \<open>q\<close>
  with its keys that begin with \<open>q\<close>. Let the prefix be a segment (not empty, no
  separator, no line terminator) without pattern characters, and let every key of the
  store that begins with \<open><prefix>:\<close> be \<open><prefix>:<name>:<suffix>\<close> with the name a
  segment and the suffix not empty and without line terminator. Then the scanner
  succeeds and returns, sorted and without duplicates, exactly the names of these keys;
  keys of other namespaces, also one whose prefix only begins with the prefix configured,
  add nothing, because the pattern sent has the separator before the \<open>*\<close>.
\<close>

theorem scanner_three_segment_keys:
  assumes store: "\<forall>q. glob_literal q \<longrightarrow> keys client (q @ js ''*'') = Inr (filter (prefix q) keyspace)"
    and pre: "segment (BULL_PREFIX c)" "glob_literal (BULL_PREFIX c)"
    and form: "\<forall>k \<in> set keyspace. prefix (BULL_PREFIX c @ [colon]) k \<longrightarrow>
                 (\<exists>n s. k = BULL_PREFIX c @ colon # n @ colon # s \<and> segment n \<and> s \<noteq> [] \<and> plain s)"
  shows "\<exists>names. scanner c client = Inr names \<and> sorted names \<and> distinct names \<and>
           set names = {n. segment n \<and> (\<exists>s. BULL_PREFIX c @ colon # n @ colon # s \<in> set keyspace)}"
proof -
  let ?P = "BULL_PREFIX c"
  let ?ks = "filter (prefix (?P @ [colon])) keyspace"
  have "keys client (scan_pattern c) = Inr ?ks"
    using store pre(2) by (simp only: scan_pattern_split glob_literal_colon)
  then have sc: "scanner c client = Inr (scan_names ?ks)"
    by (simp add: scanner_def)
  have "queue_name_of ` set ?ks = {n. segment n \<and> (\<exists>s. ?P @ colon # n @ colon # s \<in> set keyspace)}"
  proof (intro equalityI subsetI)
    fix x assume "x \<in> queue_name_of ` set ?ks"
    then obtain k where k: "k \<in> set keyspace" "prefix (?P @ [colon]) k" and x: "x = queue_name_of k"
      by auto
    from form k obtain n s where
      ns: "k = ?P @ colon # n @ colon # s" "segment n" "s \<noteq> []" "plain s" by blast
    with pre(1) x have "x = n" by (simp add: queue_name_of_three_segments)
    with ns k(1) show "x \<in> {n. segment n \<and> (\<exists>s. ?P @ colon # n @ colon # s \<in> set keyspace)}"
      by auto
  next
    fix n assume "n \<in> {n. segment n \<and> (\<exists>s. ?P @ colon # n @ colon # s \<in> set keyspace)}"
    then obtain s where n: "segment n" and k: "?P @ colon # n @ colon # s \<in> set keyspace"
      by blast
    have pk: "prefix (?P @ [colon]) (?P @ colon # n @ colon # s)" by simp
    with form k obtain n' s' where
      ns: "?P @ colon # n @ colon # s = ?P @ colon # n' @ colon # s'"
          "segment n'" "s' \<noteq> []" "plain s'" by blast
    from ns(1) have "n @ colon # s = n' @ colon # s'" by simp
    with n ns(2) have "n = n'"
      by (auto simp: segment_def dest: first_colon_unique)
    with ns pre(1) have "queue_name_of (?P @ colon # n @ colon # s) = n"
      by (simp add: queue_name_of_three_segments)
    moreover from k pk have "?P @ colon # n @ colon # s \<in> set ?ks" by simp
    ultimately show "n \<in> queue_name_of ` set ?ks" by (metis imageI)
  qed
  with sc show ?thesis
    by (simp add: scan_names_props)
qed

text \<open>
  The keys \<open>bull:B:1\<close>, \<open>bull:A:1\<close>, \<open>bull:A:2\<close>, beside a key \<open>bullet:C:1\<close> of another
  namespace: the names are \<open>A\<close> and \<open>B\<close>.
\<close>

theorem scanner_three_segment_keys_witness:
  "keys (store_of example_keyspace) (js ''bull:'' @ js ''*'') =
     Inr [js ''bull:B:1'', js ''bull:A:1'', js ''bull:A:2'']
   \<and> segment (BULL_PREFIX bullmq_config) \<and> glob_literal (BULL_PREFIX bullmq_config)
   \<and> js ''bullet:C:1'' \<in> set example_keyspace
   \<and> scanner bullmq_config (store_of example_keyspace) = Inr [js ''A'', js ''B'']"
proof -
  have store: "\<forall>q. glob_literal q \<longrightarrow>
       keys (store_of example_keyspace) (q @ js ''*'') = Inr (filter (prefix q) example_keyspace)"
    by (simp add: store_of_def js_def)
  have pre: "segment (BULL_PREFIX bullmq_config)" "glob_literal (BULL_PREFIX bullmq_config)"
    by (simp_all add: bullmq_config_def segment_literal)
  have bp: "BULL_PREFIX bullmq_config = js ''bull''" by (simp add: bullmq_config_def)
  have form: "\<forall>k \<in> set example_keyspace. prefix (BULL_PREFIX bullmq_config @ [colon]) k \<longrightarrow>
      (\<exists>n s. k = BULL_PREFIX bullmq_config @ colon # n @ colon # s \<and> segment n \<and> s \<noteq> [] \<and> plain s)"
  proof (intro ballI impI)
    fix k assume "k \<in> set example_keyspace" "prefix (BULL_PREFIX bullmq_config @ [colon]) k"
    then have "k = js ''bull:A:1'' \<or> k = js ''bull:A:2'' \<or> k = js ''bull:B:1''"
      by (auto simp: example_keyspace_def bp js_def colon_def)
    moreover have ne: "js ''1'' \<noteq> []" "js ''2'' \<noteq> []" by (simp_all add: js_def)
    ultimately consider "k = js ''bull'' @ colon # js ''A'' @ colon # js ''1''"
      | "k = js ''bull'' @ colon # js ''A'' @ colon # js ''2''"
      | "k = js ''bull'' @ colon # js ''B'' @ colon # js ''1''"
      using example_keys_form by auto
    then have "\<exists>n s. k = js ''bull'' @ colon # n @ colon # s \<and> segment n
        \<and> s \<noteq> [] \<and> plain s"
      using segment_literal ne by cases blast+
    then show "\<exists>n s. k = BULL_PREFIX bullmq_config @ colon # n @ colon # s \<and> segment n
        \<and> s \<noteq> [] \<and> plain s"
      by (simp only: bp)
  qed
  have "js ''bullet:C:1'' \<in> set example_keyspace" by (simp add: example_keyspace_def)
  moreover have "keys (store_of example_keyspace) (js ''bull:'' @ js ''*'') =
     Inr [js ''bull:B:1'', js ''bull:A:1'', js ''bull:A:2'']"
    by (simp add: store_of_def example_keyspace_def js_def)
  ultimately show ?thesis
    using pre example_scan scanner_three_segment_keys [OF store pre form] by simp
qed

subsection \<open>C4: the name taken from a key\<close>

text \<open>
  A key that the pattern \<open>bull:*\<close> matches and the expression does not: \<open>bull:A\<close> is
  returned whole, prefix and separator included.
\<close>

theorem queue_name_separator_counterexample:
  "prefix (js ''bull:'') (js ''bull:A'')
   \<and> queue_name_of (js ''bull:A'') = js ''bull:A''
   \<and> colon \<in> set (queue_name_of (js ''bull:A''))"
  by (simp add: queue_name_of_def regex_exec_def js_def colon_def is_line_terminator_def)

text \<open>
  C4, amended. The name taken from a key that is not empty is not empty. The name is a
  function of the key alone, and for a key \<open><prefix>:<name>:<suffix>\<close> whose prefix and
  name are segments and whose suffix is not empty and without line terminator it is
  the name: it holds no separator, and two keys of one queue give the same name.
\<close>

theorem queue_name_wellformed:
  "(key \<noteq> [] \<longrightarrow> queue_name_of key \<noteq> [])
   \<and> (segment p \<and> segment n \<and> s \<noteq> [] \<and> plain s \<and> s' \<noteq> [] \<and> plain s' \<longrightarrow>
        queue_name_of (p @ colon # n @ colon # s) = n
      \<and> colon \<notin> set (queue_name_of (p @ colon # n @ colon # s))
      \<and> queue_name_of (p @ colon # n @ colon # s') = queue_name_of (p @ colon # n @ colon # s))"
  by (auto simp: queue_name_of_nonempty queue_name_of_three_segments segment_def)

text \<open>
  Two keys of the queue \<open>A\<close>.
\<close>

theorem queue_name_wellformed_witness:
  "js ''bull:A:1'' \<noteq> [] \<and> segment (js ''bull'') \<and> segment (js ''A'')
   \<and> plain (js ''1'') \<and> plain (js ''2'')
   \<and> queue_name_of (js ''bull:A:1'') = js ''A''
   \<and> queue_name_of (js ''bull:A:2'') = js ''A''"
  using queue_name_wellformed [of "js ''bull:A:1''" "js ''bull''" "js ''A''" "js ''1''" "js ''2''"]
    segment_literal example_keys_form
  by (simp add: js_def)

subsection \<open>C5: the order of the registry and of the outcomes\<close>

text \<open>
  C5. Let the libraries' constructors give each adapter a readable queue with the name
  they were called with. After the discovery pass the names of the adapters in
  \<open>queueList\<close> are sorted ascending, without duplicates, and every bulk reset answers with
  the outcomes of exactly these queues in exactly this order.
\<close>

theorem registry_sorted_and_reset_in_order:
  assumes "\<forall>call a. lib call = Inr a \<longrightarrow> readable a \<and> name_of a = Str (call_item call)"
  shows "\<exists>names.
           map name_of (queueList (run_discovery c client lib initial_state)) = map Str names
         \<and> sorted names \<and> distinct names
         \<and> (\<forall>w. \<exists>results w'.
               cleanAllQueuesHandler (queueList (run_discovery c client lib initial_state)) w =
                 (\<lparr>status = 200,
                   body = Obj [(''success'', Bool True), (''results'', Arr results)]\<rparr>, w')
             \<and> map (\<lambda>out. get_prop out ''queue'') results = map Str names)"
proof -
  let ?qs = "queueList (run_discovery c client lib initial_state)"
  have "\<exists>names. map name_of ?qs = map Str names \<and> sorted names \<and> distinct names
          \<and> (\<forall>a \<in> set ?qs. readable a)"
  proof (cases "\<exists>names as. connect client = Inr () \<and> scanner c client = Inr names
                  \<and> construct_all lib c names = Inr as")
    case True
    then obtain names as where ok: "connect client = Inr ()" "scanner c client = Inr names"
      "construct_all lib c names = Inr as" by blast
    then have "?qs = as" by (simp add: queueList_run_discovery)
    with construct_all_names [OF assms ok(3)] scanner_sorted [OF ok(2)] show ?thesis
      by blast
  next
    case False
    then have "?qs = []"
      by (auto simp: queueList_run_discovery split: sum.splits)
    then have "map name_of ?qs = map Str [] \<and> sorted ([]::js_string list)
        \<and> distinct ([]::js_string list) \<and> (\<forall>a \<in> set ?qs. readable a)" by simp
    then show ?thesis by blast
  qed
  then obtain names where names: "map name_of ?qs = map Str names" "sorted names"
    "distinct names" and r: "\<forall>a \<in> set ?qs. readable a" by blast
  have "\<exists>results w'. cleanAllQueuesHandler ?qs w =
          (\<lparr>status = 200, body = Obj [(''success'', Bool True), (''results'', Arr results)]\<rparr>, w')
        \<and> map (\<lambda>out. get_prop out ''queue'') results = map Str names" for w
    using clean_loop_readable [OF r, of "[]" w] queue_names_reset_spec [of ?qs w] names(1)
    by (simp add: cleanAllQueuesHandler_def)
  with names show ?thesis by blast
qed

text \<open>
  The example store: the registry holds \<open>A\<close>, then \<open>B\<close>.
\<close>

theorem registry_sorted_witness:
  "(\<forall>call. \<exists>a. naming_lib call = Inr a \<and> readable a \<and> name_of a = Str (call_item call))
   \<and> map name_of (queueList (run_discovery bullmq_config (store_of example_keyspace)
                                naming_lib initial_state))
       = [Str (js ''A''), Str (js ''B'')]
   \<and> sorted [js ''A'', js ''B'']"
proof -
  have n: "\<forall>call a. naming_lib call = Inr a \<longrightarrow> readable a \<and> name_of a = Str (call_item call)"
    by (auto simp: naming_lib_def readable_def read_error_def name_of_def queue_of_def
        ok_queue_def)
  have "map name_of (queueList (run_discovery bullmq_config (store_of example_keyspace)
                                naming_lib initial_state))
       = [Str (js ''A''), Str (js ''B'')]"
    using connect_store_of [of example_keyspace]
    by (simp add: queueList_run_discovery example_scan naming_lib_def name_of_def queue_of_def
        ok_queue_def call_item_make_call)
  moreover have "sorted [js ''A'', js ''B'']" by (simp add: js_def)
  moreover have
    "\<forall>call. \<exists>a. naming_lib call = Inr a \<and> readable a \<and> name_of a = Str (call_item call)"
    by (simp add: naming_lib_def readable_def read_error_def name_of_def queue_of_def
        ok_queue_def)
  ultimately show ?thesis
    using registry_sorted_and_reset_in_order [OF n, of bullmq_config "store_of example_keyspace"]
    by simp
qed

subsection \<open>C6: the bulk reset of an empty registry\<close>

text \<open>
  C6. On the empty list, which is also the list before discovery has finished, the bulk
  reset answers with status 200, \<open>success: true\<close> and no outcome, and touches nothing.
\<close>

theorem bulk_reset_empty_registry:
  "cleanAllQueuesHandler [] w =
     (\<lparr>status = 200, body = Obj [(''success'', Bool True), (''results'', Arr [])]\<rparr>, w)
   \<and> cleanAllQueuesHandler (queueList initial_state) w =
     (\<lparr>status = 200, body = Obj [(''success'', Bool True), (''results'', Arr [])]\<rparr>, w)"
  by (simp add: cleanAllQueuesHandler_def initial_state_def)

subsection \<open>C7: discovery fails\<close>

text \<open>
  C7. When the connection to the store is rejected, or the store is reached and the
  enumeration of its keys is rejected, the process listens all the same, \<open>queueList\<close> and the dashboard's list stay empty, and the one
  thing that happens is the console line with the error.
\<close>

theorem discovery_failure_leaves_empty_registry:
  assumes "connect client = Inl err
           \<or> (connect client = Inr () \<and> keys client (scan_pattern c) = Inl err)"
  shows "main c env client lib =
           \<lparr>layers = app_layers c env, listening = Some (PORT c),
            state = \<lparr>queueList = [], board_queues = [],
                     console = [ConsoleError (js ''Error setting up queues:'') err]\<rparr>\<rparr>"
  using assms
  by (auto simp: main_def run_discovery_def discover_def scanner_def initial_state_def)

text \<open>
  A store whose \<open>keys\<close> call is rejected.
\<close>

theorem discovery_failure_witness:
  "connect unreachable_store = Inr ()
   \<and> keys unreachable_store (scan_pattern bullmq_config) = Inl (JsError (js ''ECONNRESET''))
   \<and> queueList (state (main bullmq_config (js ''production'') unreachable_store naming_lib)) = []
   \<and> console (state (main bullmq_config (js ''production'') unreachable_store naming_lib))
       = [ConsoleError (js ''Error setting up queues:'') (JsError (js ''ECONNRESET''))]
   \<and> listening (main bullmq_config (js ''production'') unreachable_store naming_lib)
       = Some (Num 3000)"
proof -
  have c: "connect unreachable_store = Inr ()"
    and k: "keys unreachable_store (scan_pattern bullmq_config) = Inl (JsError (js ''ECONNRESET''))"
    by (simp_all add: unreachable_store_def)
  show ?thesis
    using c k discovery_failure_leaves_empty_registry
      [of unreachable_store "JsError (js ''ECONNRESET'')" bullmq_config "js ''production''"
          naming_lib]
    by (simp add: bullmq_config_def)
qed

subsection \<open>C8: the empty key-space\<close>

text \<open>
  C8. When the store has no key under the pattern, the scanner returns the empty list
  of names without error, the process listens, \<open>queueList\<close> and the dashboard's list are
  set to the empty list, and the console says \<open>done!\<close>, with no error line.
\<close>

theorem empty_keyspace_gives_empty_registry:
  assumes "connect client = Inr ()" and "keys client (scan_pattern c) = Inr []"
  shows "scanner c client = Inr []
         \<and> main c env client lib =
           \<lparr>layers = app_layers c env, listening = Some (PORT c),
            state = \<lparr>queueList = [], board_queues = [],
                     console = [ConsoleLog (js ''done!'')]\<rparr>\<rparr>"
  using assms
  by (simp add: main_def run_discovery_def discover_def scanner_def scan_names_def uniq_def
      initial_state_def)

text \<open>
  The empty store.
\<close>

theorem empty_keyspace_witness:
  "connect (store_of []) = Inr ()
   \<and> keys (store_of []) (scan_pattern bullmq_config) = Inr []
   \<and> scanner bullmq_config (store_of []) = Inr []
   \<and> state (main bullmq_config (js ''production'') (store_of []) naming_lib)
       = \<lparr>queueList = [], board_queues = [], console = [ConsoleLog (js ''done!'')]\<rparr>"
proof -
  have c: "connect (store_of []) = Inr ()"
    and k: "keys (store_of []) (scan_pattern bullmq_config) = Inr []"
    by (simp_all add: store_of_def)
  show ?thesis
    using c k empty_keyspace_gives_empty_registry [OF c k, of "js ''production''" naming_lib]
    by simp
qed

subsection \<open>C9: the routes of the bulk reset\<close>

text \<open>
  C9. Whatever the configuration, the POST routes of the application are two, both with
  the handler alone in their chain: one at the base path followed by
  \<open>/api/clean-all-queues\<close>, one at \<open>/api/clean-all-queues\<close>. A request that the second
  route matches and that every function other than the login guard passes on reaches the
  handler, whether or not the guard would let it through.
\<close>

theorem clean_all_routes_unguarded:
  "filter is_post (app_layers c env) =
     [Post (HOME_PAGE c @ clean_all_path) [CleanAllQueuesHandler],
      Post clean_all_path [CleanAllQueuesHandler]]
   \<and> (mt (Post clean_all_path [CleanAllQueuesHandler]) r
        \<and> (\<forall>m. (\<forall>p. m \<noteq> EnsureLoggedIn p) \<longrightarrow> ext m r)
      \<longrightarrow> dispatch mt ext (app_layers c env) r = Some CleanAllQueuesHandler)"
  by (simp add: app_layers_def)

text \<open>
  With authentication enabled and a guard that turns every request away, a POST to
  \<open>/api/clean-all-queues\<close> reaches the handler.
\<close>

theorem clean_all_routes_witness:
  "truthy (AUTH_ENABLED bullmq_config)
   \<and> path_matches (Post clean_all_path [CleanAllQueuesHandler]) clean_all_path
   \<and> guard_rejects AuthRouter clean_all_path
   \<and> \<not> guard_rejects (EnsureLoggedIn (LOGIN_PAGE bullmq_config)) clean_all_path
   \<and> dispatch path_matches guard_rejects (app_layers bullmq_config (js ''production''))
        clean_all_path = Some CleanAllQueuesHandler"
proof -
  have g: "\<forall>m. (\<forall>p. m \<noteq> EnsureLoggedIn p) \<longrightarrow> guard_rejects m clean_all_path"
  proof (intro allI impI)
    fix m assume "\<forall>p. m \<noteq> EnsureLoggedIn p"
    then show "guard_rejects m clean_all_path" by (cases m) simp_all
  qed
  show ?thesis
    using g clean_all_routes_unguarded [of bullmq_config "js ''production''" path_matches
        clean_all_path guard_rejects]
    by (simp add: bullmq_config_def)
qed

subsection \<open>C10: an adapter that cannot be read\<close>

text \<open>
  C10. When the adapters before some adapter can be read and reading that adapter's
  queue or the queue's name throws, the bulk reset answers with status 500,
  \<open>success: false\<close> and the message thrown: the answer holds no outcome, although the
  queues before were cleared, and no later queue is touched.
\<close>

theorem bulk_reset_aborts_on_unreadable_adapter:
  assumes "\<forall>a \<in> set pre. readable a" and "read_error a = Some e"
  shows "cleanAllQueuesHandler (pre @ a # post) w =
           (\<lparr>status = 500,
             body = Obj [(''success'', Bool False), (''error'', Str (message e))]\<rparr>,
            snd (reset_spec pre w))
         \<and> \<not> has_prop (body (fst (cleanAllQueuesHandler (pre @ a # post) w))) ''results''"
  using clean_loop_unreadable [OF assms, of post "[]" w]
  by (simp add: cleanAllQueuesHandler_def)

text \<open>
  One queue cleared, then an adapter without a queue, then three more adapters.
\<close>

theorem bulk_reset_abort_witness:
  "list_all readable [QueueAdapter (Inr (ok_queue (js ''A'')))]
   \<and> read_error nameless_adapter = Some (JsError (js ''no queue''))
   \<and> cleanAllQueuesHandler
       ([QueueAdapter (Inr (ok_queue (js ''A'')))] @ nameless_adapter # three_queues) 0 =
       (\<lparr>status = 500,
         body = Obj [(''success'', Bool False), (''error'', Str (js ''no queue''))]\<rparr>, 1)"
proof -
  have r: "\<forall>a \<in> set [QueueAdapter (Inr (ok_queue (js ''A'')))]. readable a"
    by (simp add: readable_def read_error_def ok_queue_def)
  have e: "read_error nameless_adapter = Some (JsError (js ''no queue''))"
    by (simp add: nameless_adapter_def read_error_def)
  have "snd (reset_spec [QueueAdapter (Inr (ok_queue (js ''A'')))] 0) = 1"
    by (simp add: ok_queue_def queue_of_def force_true_def)
  with r e bulk_reset_aborts_on_unreadable_adapter [OF r e, of three_queues 0]
  show ?thesis by simp
qed

end
